theory Spec2Isabelle
  imports Complex_Main
begin

section \<open>Fibonacci retracement backtest: the data\<close>

text \<open>
  The program (\<^verbatim>\<open>FibonacciRetracementBacktest.py\<close>) is one Streamlit script. What it does
  after the price table has been fetched is embedded here: the validation of the table,
  the rolling swing extremes, the three retracement levels, the removal of the rows that
  have no level, and the walk over the remaining rows that opens and closes trades.

  Numbers. The price columns and everything computed from them are float64 in the
  program. They are embedded as \<^typ>\<open>real\<close>, and a NaN is the value \<^term>\<open>None\<close> of an
  option. The walk is given twice: with exact arithmetic, and with the rounding of every
  operation made explicit (section \<open>The walk in float64\<close>), for the one property that
  rounding decides. Infinities are outside the embedding. The starting balance comes from
  an integer number field and is an \<^typ>\<open>int\<close>; the risk percentage comes from a float
  field. A date is embedded as a day number.
\<close>

type_synonym date = nat

text \<open>One row of the fetched table (columns \<^verbatim>\<open>Date\<close>, \<^verbatim>\<open>High\<close>, \<^verbatim>\<open>Low\<close>, \<^verbatim>\<open>Close\<close>).\<close>

record price_bar =
  Date :: date
  High :: real
  Low :: real
  Close :: real

text \<open>
  The table after lines 75-91: the swing columns and the three level columns are added.
  A cell of these columns may be NaN.
\<close>

record annotated =
  aDate :: date
  aHigh :: real
  aLow :: real
  aClose :: real
  aSwingHigh :: "real option"
  aSwingLow :: "real option"
  aFib38 :: "real option"
  aFib50 :: "real option"
  aFib61 :: "real option"

text \<open>
  A row that survived \<^verbatim>\<open>dropna(subset=["Fib50", "SwingHigh", "SwingLow"])\<close>: the three
  columns of the subset hold numbers; the two other level columns are kept as they were.
\<close>

record row =
  rDate :: date
  rHigh :: real
  rLow :: real
  rClose :: real
  SwingHigh :: real
  SwingLow :: real
  Fib38 :: "real option"
  Fib50 :: real
  Fib61 :: "real option"

text \<open>
  Every \<^verbatim>\<open>st.error(...)\<close> followed by \<^verbatim>\<open>st.stop()\<close> ends the script; these are the
  validation failures of the program, one constructor for each place.
\<close>

datatype error =
  NoData
  | DatasetTooSmall
  | SwingAllNaN
  | FibAllNaN

section \<open>The indicator engine\<close>

text \<open>
  \<^verbatim>\<open>Series.rolling(window=w, center=True).max()\<close>. For the row at position \<open>i\<close> pandas
  takes the window that ends (exclusively) at \<open>i + 1 + (w - 1) // 2\<close> and starts \<open>w\<close>
  positions before, clips both bounds to the table, and answers NaN when the clipped
  window holds fewer than \<open>min_periods\<close> observations, which is \<open>w\<close> when not given.
\<close>

definition window_bounds :: "nat \<Rightarrow> nat \<Rightarrow> nat \<Rightarrow> nat \<times> nat" where
  "window_bounds w n i =
     (let offset = (w - 1) div 2;
          e = i + 1 + offset
      in (min n (e - w), min n e))"

definition window_max :: "real list \<Rightarrow> real option" where
  "window_max xs = (case xs of [] \<Rightarrow> None | x # r \<Rightarrow> Some (fold max r x))"

definition window_min :: "real list \<Rightarrow> real option" where
  "window_min xs = (case xs of [] \<Rightarrow> None | x # r \<Rightarrow> Some (fold min r x))"

definition rolling_at :: "(real list \<Rightarrow> real option) \<Rightarrow> nat \<Rightarrow> real list \<Rightarrow> nat \<Rightarrow> real option" where
  "rolling_at agg w xs i =
     (case window_bounds w (length xs) i of
        (s, e) \<Rightarrow> if e - s < w then None else agg (take (e - s) (drop s xs)))"

definition rolling :: "(real list \<Rightarrow> real option) \<Rightarrow> nat \<Rightarrow> real list \<Rightarrow> real option list" where
  "rolling agg w xs = map (rolling_at agg w xs) [0..<length xs]"

text \<open>
  Lines 89-91: \<^verbatim>\<open>data["SwingHigh"] - (data["SwingHigh"] - data["SwingLow"]) * fraction\<close>,
  cell by cell; a NaN operand gives NaN.
\<close>

definition fib_level :: "real \<Rightarrow> real option \<Rightarrow> real option \<Rightarrow> real option" where
  "fib_level fraction sh sl =
     (case (sh, sl) of
        (Some h, Some l) \<Rightarrow> Some (h - (h - l) * fraction)
      | _ \<Rightarrow> None)"

definition annotate :: "price_bar list \<Rightarrow> nat \<Rightarrow> annotated list" where
  "annotate data swing_length =
     (let sh = rolling window_max swing_length (map High data);
          sl = rolling window_min swing_length (map Low data)
      in map (\<lambda>i. \<lparr> aDate = Date (data ! i), aHigh = High (data ! i),
                     aLow = Low (data ! i), aClose = Close (data ! i),
                     aSwingHigh = sh ! i, aSwingLow = sl ! i,
                     aFib38 = fib_level (382 / 1000) (sh ! i) (sl ! i),
                     aFib50 = fib_level (5 / 10) (sh ! i) (sl ! i),
                     aFib61 = fib_level (618 / 1000) (sh ! i) (sl ! i) \<rparr>)
             [0..<length data])"

text \<open>\<^verbatim>\<open>column.isnull().all()\<close>\<close>

definition all_null :: "'a option list \<Rightarrow> bool" where
  "all_null col = list_all (\<lambda>c. c = None) col"

text \<open>Line 106: the rows with a NaN in one of the three columns are removed.\<close>

definition keep_row :: "annotated \<Rightarrow> row option" where
  "keep_row a =
     (case (aFib50 a, aSwingHigh a, aSwingLow a) of
        (Some f, Some h, Some l) \<Rightarrow>
          Some \<lparr> rDate = aDate a, rHigh = aHigh a, rLow = aLow a, rClose = aClose a,
                 SwingHigh = h, SwingLow = l, Fib38 = aFib38 a, Fib50 = f,
                 Fib61 = aFib61 a \<rparr>
      | _ \<Rightarrow> None)"

definition dropna :: "annotated list \<Rightarrow> row list" where
  "dropna tbl = List.map_filter keep_row tbl"

text \<open>
  Lines 49-106. The check of the column names (lines 54-58) has no counterpart: every
  \<^typ>\<open>price_bar\<close> has the three columns.
\<close>

definition indicator_engine :: "price_bar list \<Rightarrow> nat \<Rightarrow> error + row list" where
  "indicator_engine data swing_length =
     (if data = [] then Inl NoData
      else if length data < swing_length then Inl DatasetTooSmall
      else
        let tbl = annotate data swing_length
        in if all_null (map aSwingHigh tbl) \<or> all_null (map aSwingLow tbl)
           then Inl SwingAllNaN
           else if all_null (map aFib38 tbl) \<or> all_null (map aFib50 tbl)
                   \<or> all_null (map aFib61 tbl)
           then Inl FibAllNaN
           else Inr (dropna tbl))"

section \<open>The trade simulator\<close>

text \<open>One dictionary appended to \<^verbatim>\<open>transactions\<close> (lines 148-160).\<close>

record transaction =
  Entry_Date :: date
  Exit_Date :: date
  Entry_Price :: real
  Exit_Price :: real
  Shares_Bought :: real
  Shares_Sold :: real
  PL :: real
  PL_percent :: real
  Total_PL :: real
  Total_PL_percent :: real
  Account_Balance :: real

text \<open>The two messages the loop writes (lines 132 and 163), with the values they show.\<close>

datatype message =
  Entry_signal date real
  | Exit_signal date real

text \<open>The variables the loop updates, and what it has written so far.\<close>

record sim_state =
  account_balance :: real
  total_pnl :: real
  total_pnl_percent :: real
  transactions :: "transaction list"
  written :: "message list"

definition init_state :: "int \<Rightarrow> sim_state" where
  "init_state starting_balance =
     \<lparr> account_balance = of_int starting_balance, total_pnl = 0,
       total_pnl_percent = 0, transactions = [], written = [] \<rparr>"

text \<open>The condition of lines 120-124.\<close>

definition entry_signal :: "row list \<Rightarrow> nat \<Rightarrow> bool" where
  "entry_signal data i \<longleftrightarrow>
     i > 0 \<and> rClose (data ! i) > Fib50 (data ! i)
           \<and> rClose (data ! (i - 1)) \<le> Fib50 (data ! i)"

text \<open>
  The inner loop (lines 135-136, 164): the first \<open>j\<close> of \<^verbatim>\<open>range(i + 1, len(data))\<close> whose
  high reaches its swing high, if there is one.
\<close>

definition find_exit :: "row list \<Rightarrow> nat \<Rightarrow> nat option" where
  "find_exit data i =
     List.find (\<lambda>j. rHigh (data ! j) \<ge> SwingHigh (data ! j)) [i + 1..<length data]"

text \<open>Lines 137-163, for the exit row \<open>j\<close> found.\<close>

definition close_trade ::
  "row list \<Rightarrow> date \<Rightarrow> real \<Rightarrow> real \<Rightarrow> nat \<Rightarrow> sim_state \<Rightarrow> sim_state" where
  "close_trade data entry_date entry_price shares j st =
     (let exit_price = SwingHigh (data ! j);
          exit_date = rDate (data ! j);
          pnl = (exit_price - entry_price) * shares;
          pnl_percent = (pnl / (entry_price * shares)) * 100;
          balance = account_balance st + pnl;
          total = total_pnl st + pnl;
          total_percent = total_pnl_percent st + pnl_percent
      in \<lparr> account_balance = balance, total_pnl = total,
           total_pnl_percent = total_percent,
           transactions = transactions st @
             [\<lparr> Entry_Date = entry_date, Exit_Date = exit_date,
                Entry_Price = entry_price, Exit_Price = exit_price,
                Shares_Bought = shares, Shares_Sold = shares,
                PL = pnl, PL_percent = pnl_percent,
                Total_PL = total, Total_PL_percent = total_percent,
                Account_Balance = balance \<rparr>],
           written = written st @ [Exit_signal exit_date exit_price] \<rparr>)"

text \<open>The body of the outer loop (lines 119-164) for one \<open>i\<close>.\<close>

definition step :: "row list \<Rightarrow> real \<Rightarrow> nat \<Rightarrow> sim_state \<Rightarrow> sim_state" where
  "step data risk_percent i st =
     (if entry_signal data i then
        let position_size = (risk_percent / 100) * account_balance st;
            shares = position_size / rClose (data ! i);
            entry_price = rClose (data ! i);
            entry_date = rDate (data ! i);
            st1 = st \<lparr> written := written st @ [Entry_signal entry_date entry_price] \<rparr>
        in case find_exit data i of
             None \<Rightarrow> st1
           | Some j \<Rightarrow> close_trade data entry_date entry_price shares j st1
      else st)"

text \<open>The state when the outer loop has done the rows before \<open>k\<close>.\<close>

definition backtest_upto :: "row list \<Rightarrow> int \<Rightarrow> real \<Rightarrow> nat \<Rightarrow> sim_state" where
  "backtest_upto data starting_balance risk_percent k =
     fold (step data risk_percent) [0..<k] (init_state starting_balance)"

text \<open>Lines 111-164: \<^verbatim>\<open>for i in range(len(data))\<close>.\<close>

definition backtest :: "row list \<Rightarrow> int \<Rightarrow> real \<Rightarrow> sim_state" where
  "backtest data starting_balance risk_percent =
     backtest_upto data starting_balance risk_percent (length data)"

text \<open>The whole computation behind the button, from the fetched table on.\<close>

definition run :: "price_bar list \<Rightarrow> nat \<Rightarrow> int \<Rightarrow> real \<Rightarrow> error + sim_state" where
  "run data swing_length starting_balance risk_percent =
     (case indicator_engine data swing_length of
        Inl e \<Rightarrow> Inl e
      | Inr rows \<Rightarrow> Inr (backtest rows starting_balance risk_percent))"

section \<open>The walk in float64\<close>

text \<open>
  The sums of lines 143-145 are float64 sums: each is rounded on its own. To follow them,
  the walk is written a second time with a rounding function applied to the result of
  every arithmetic operation of lines 126-145, in the order in which Python evaluates
  them. With the identity for the rounding this is the walk above (\<open>backtest_fp_exact\<close>
  below); with \<open>float64\<close> it is the arithmetic of the program.

  \<open>float64\<close> rounds a real number to the nearest binary64 number, ties to the even
  significand: 53 significant bits down to the exponent -1022, multiples of
  \<open>2 ^ -1074\<close> below. A result beyond the largest binary64 number (an infinity in the
  program) is outside the embedding. The starting balance is an integer of the number
  field, below \<open>2 ^ 53\<close>, so it is a binary64 number already.
\<close>

fun binary_exponent_from :: "nat \<Rightarrow> real \<Rightarrow> int \<Rightarrow> int" where
  "binary_exponent_from 0 m e = e"
| "binary_exponent_from (Suc n) m e =
     (if 2 \<le> m then binary_exponent_from n (m / 2) (e + 1)
      else if m < 1 then binary_exponent_from n (m * 2) (e - 1)
      else e)"

text \<open>
  The exponent \<open>e\<close> with \<open>2 ^ e \<le> \<bar>x\<bar> < 2 ^ (e + 1)\<close>; 2200 steps reach every exponent
  that a sum, product or quotient of two binary64 numbers can have.
\<close>

definition binary_exponent :: "real \<Rightarrow> int" where
  "binary_exponent x = binary_exponent_from 2200 \<bar>x\<bar> 0"

definition two_to :: "int \<Rightarrow> real" where
  "two_to e = (if 0 \<le> e then 2 ^ nat e else 1 / 2 ^ nat (- e))"

definition round_half_even :: "real \<Rightarrow> int" where
  "round_half_even y =
     (let f = \<lfloor>y\<rfloor>; d = y - of_int f
      in if d < 1 / 2 then f
         else if 1 / 2 < d then f + 1
         else if even f then f else f + 1)"

definition float64 :: "real \<Rightarrow> real" where
  "float64 x =
     (if x = 0 then 0
      else let e = max (binary_exponent x) (- 1022);
               ulp = two_to (e - 52)
           in of_int (round_half_even (x / ulp)) * ulp)"

text \<open>Lines 137-163 with the rounding \<open>rnd\<close>.\<close>

definition close_trade_fp ::
  "(real \<Rightarrow> real) \<Rightarrow> row list \<Rightarrow> date \<Rightarrow> real \<Rightarrow> real \<Rightarrow> nat \<Rightarrow> sim_state \<Rightarrow> sim_state" where
  "close_trade_fp rnd data entry_date entry_price shares j st =
     (let exit_price = SwingHigh (data ! j);
          exit_date = rDate (data ! j);
          pnl = rnd (rnd (exit_price - entry_price) * shares);
          pnl_percent = rnd (rnd (pnl / rnd (entry_price * shares)) * 100);
          balance = rnd (account_balance st + pnl);
          total = rnd (total_pnl st + pnl);
          total_percent = rnd (total_pnl_percent st + pnl_percent)
      in \<lparr> account_balance = balance, total_pnl = total,
           total_pnl_percent = total_percent,
           transactions = transactions st @
             [\<lparr> Entry_Date = entry_date, Exit_Date = exit_date,
                Entry_Price = entry_price, Exit_Price = exit_price,
                Shares_Bought = shares, Shares_Sold = shares,
                PL = pnl, PL_percent = pnl_percent,
                Total_PL = total, Total_PL_percent = total_percent,
                Account_Balance = balance \<rparr>],
           written = written st @ [Exit_signal exit_date exit_price] \<rparr>)"

text \<open>Lines 119-164 with the rounding \<open>rnd\<close>.\<close>

definition step_fp :: "(real \<Rightarrow> real) \<Rightarrow> row list \<Rightarrow> real \<Rightarrow> nat \<Rightarrow> sim_state \<Rightarrow> sim_state" where
  "step_fp rnd data risk_percent i st =
     (if entry_signal data i then
        let position_size = rnd (rnd (risk_percent / 100) * account_balance st);
            shares = rnd (position_size / rClose (data ! i));
            entry_price = rClose (data ! i);
            entry_date = rDate (data ! i);
            st1 = st \<lparr> written := written st @ [Entry_signal entry_date entry_price] \<rparr>
        in case find_exit data i of
             None \<Rightarrow> st1
           | Some j \<Rightarrow> close_trade_fp rnd data entry_date entry_price shares j st1
      else st)"

definition backtest_upto_fp ::
  "(real \<Rightarrow> real) \<Rightarrow> row list \<Rightarrow> int \<Rightarrow> real \<Rightarrow> nat \<Rightarrow> sim_state" where
  "backtest_upto_fp rnd data starting_balance risk_percent k =
     fold (step_fp rnd data risk_percent) [0..<k] (init_state starting_balance)"

definition backtest_fp :: "(real \<Rightarrow> real) \<Rightarrow> row list \<Rightarrow> int \<Rightarrow> real \<Rightarrow> sim_state" where
  "backtest_fp rnd data starting_balance risk_percent =
     backtest_upto_fp rnd data starting_balance risk_percent (length data)"

section \<open>The input fields\<close>




section \<open>Example tables\<close>

definition bar :: "date \<Rightarrow> real \<Rightarrow> real \<Rightarrow> real \<Rightarrow> price_bar" where
  "bar d h l c = \<lparr> Date = d, High = h, Low = l, Close = c \<rparr>"

definition annotated_row ::
  "date \<Rightarrow> real \<Rightarrow> real \<Rightarrow> real \<Rightarrow> real \<Rightarrow> real \<Rightarrow> row" where
  "annotated_row d h l c sh sl =
     \<lparr> rDate = d, rHigh = h, rLow = l, rClose = c, SwingHigh = sh, SwingLow = sl,
       Fib38 = Some (sh - (sh - sl) * (382 / 1000)), Fib50 = sh - (sh - sl) * (5 / 10),
       Fib61 = Some (sh - (sh - sl) * (618 / 1000)) \<rparr>"

text \<open>
  Nine days between 8 and 12 that close at 11, after a first day that reached 20: the
  50% level falls from 14 to 10 when the first day leaves the window.
\<close>

definition bars_a :: "price_bar list" where
  "bars_a = [bar 0 20 8 11, bar 1 12 8 11, bar 2 12 8 11, bar 3 12 8 11, bar 4 12 8 11,
             bar 5 12 8 11, bar 6 12 8 11, bar 7 12 8 11, bar 8 12 8 11]"

definition rows_a :: "row list" where
  "rows_a = [annotated_row 2 12 8 11 20 8, annotated_row 3 12 8 11 12 8,
             annotated_row 4 12 8 11 12 8, annotated_row 5 12 8 11 12 8,
             annotated_row 6 12 8 11 12 8]"

text \<open>
  Ten days between 8 and 16 with a high of 20 on day 6; the close rises from 9 to 15 on
  day 3, is back at 9 on day 4 and at 15 from day 5 on.
\<close>

definition bars_b :: "price_bar list" where
  "bars_b = [bar 0 16 8 9, bar 1 16 8 9, bar 2 16 8 9, bar 3 16 8 15, bar 4 16 8 9,
             bar 5 16 8 15, bar 6 20 8 15, bar 7 16 8 15, bar 8 16 8 15, bar 9 16 8 15]"

definition rows_b :: "row list" where
  "rows_b = [annotated_row 2 16 8 9 16 8, annotated_row 3 16 8 15 16 8,
             annotated_row 4 16 8 9 20 8, annotated_row 5 16 8 15 20 8,
             annotated_row 6 20 8 15 20 8, annotated_row 7 16 8 15 20 8]"

text \<open>Seven days whose close falls by one every day.\<close>

definition bars_c :: "price_bar list" where
  "bars_c = [bar 0 21 19 20, bar 1 20 18 19, bar 2 19 17 18, bar 3 18 16 17,
             bar 4 17 15 16, bar 5 16 14 15, bar 6 15 13 14]"

definition rows_c :: "row list" where
  "rows_c = [annotated_row 2 19 17 18 21 15, annotated_row 3 18 16 17 20 14,
             annotated_row 4 17 15 16 19 13]"

text \<open>Five days, and one day, for the smallest tables.\<close>

definition bars_d :: "price_bar list" where
  "bars_d = [bar 0 12 8 11, bar 1 14 9 10, bar 2 13 7 12, bar 3 15 10 11, bar 4 12 9 10]"


section \<open>The example tables are tables of the indicator engine\<close>

lemma engine_bars_a: "indicator_engine bars_a 5 = Inr rows_a"
  by code_simp


lemma engine_bars_b_short: "indicator_engine (take 8 bars_b) 5 = Inr (take 4 rows_b)"
  by code_simp

lemma engine_bars_c: "indicator_engine bars_c 5 = Inr rows_c"
  by code_simp

section \<open>The loops\<close>

lemma find_upt_Some:
  "List.find P [a..<b] = Some j \<longleftrightarrow> a \<le> j \<and> j < b \<and> P j \<and> (\<forall>k. a \<le> k \<and> k < j \<longrightarrow> \<not> P k)"
proof (induction "b - a" arbitrary: a)
  case 0
  then have "[a..<b] = []" by simp
  with 0 show ?case by simp
next
  case (Suc n)
  then have ab: "a < b" and n: "n = b - Suc a" by arith+
  have u: "[a..<b] = a # [Suc a..<b]" using ab by (rule upt_conv_Cons)
  show ?case
  proof (cases "P a")
    case True
    have "a \<le> j \<and> j < b \<and> P j \<and> (\<forall>k. a \<le> k \<and> k < j \<longrightarrow> \<not> P k) \<longleftrightarrow> j = a"
    proof
      assume h: "a \<le> j \<and> j < b \<and> P j \<and> (\<forall>k. a \<le> k \<and> k < j \<longrightarrow> \<not> P k)"
      show "j = a"
      proof (rule ccontr)
        assume "j \<noteq> a"
        with h have "a < j" by simp
        with h have "\<not> P a" by simp
        with True show False by simp
      qed
    next
      assume "j = a"
      with True ab show "a \<le> j \<and> j < b \<and> P j \<and> (\<forall>k. a \<le> k \<and> k < j \<longrightarrow> \<not> P k)" by auto
    qed
    with True u show ?thesis by auto
  next
    case False
    have ih: "List.find P [Suc a..<b] = Some j \<longleftrightarrow>
        Suc a \<le> j \<and> j < b \<and> P j \<and> (\<forall>k. Suc a \<le> k \<and> k < j \<longrightarrow> \<not> P k)"
      using n by (rule Suc.hyps(1))
    have e: "(Suc a \<le> j \<and> j < b \<and> P j \<and> (\<forall>k. Suc a \<le> k \<and> k < j \<longrightarrow> \<not> P k)) \<longleftrightarrow>
             (a \<le> j \<and> j < b \<and> P j \<and> (\<forall>k. a \<le> k \<and> k < j \<longrightarrow> \<not> P k))"
    proof
      assume h: "Suc a \<le> j \<and> j < b \<and> P j \<and> (\<forall>k. Suc a \<le> k \<and> k < j \<longrightarrow> \<not> P k)"
      have "\<not> P k" if "a \<le> k \<and> k < j" for k
      proof (cases "k = a")
        case True with False show ?thesis by simp
      next
        case False
        with that have "Suc a \<le> k \<and> k < j" by arith
        with h show ?thesis by blast
      qed
      with h show "a \<le> j \<and> j < b \<and> P j \<and> (\<forall>k. a \<le> k \<and> k < j \<longrightarrow> \<not> P k)" by simp
    next
      assume h: "a \<le> j \<and> j < b \<and> P j \<and> (\<forall>k. a \<le> k \<and> k < j \<longrightarrow> \<not> P k)"
      with False have "j \<noteq> a" by blast
      with h have "Suc a \<le> j" by arith
      moreover have "\<not> P k" if "Suc a \<le> k \<and> k < j" for k
      proof -
        from that have "a \<le> k \<and> k < j" by arith
        with h show ?thesis by blast
      qed
      ultimately show "Suc a \<le> j \<and> j < b \<and> P j \<and> (\<forall>k. Suc a \<le> k \<and> k < j \<longrightarrow> \<not> P k)"
        using h by simp
    qed
    have "List.find P [a..<b] = List.find P [Suc a..<b]" using False u by simp
    with ih e show ?thesis by simp
  qed
qed

lemma find_upt_None:
  "List.find P [a..<b] = None \<longleftrightarrow> (\<forall>k. a \<le> k \<and> k < b \<longrightarrow> \<not> P k)"
  by (auto simp: find_None_iff)

lemma backtest_upto_Suc:
  "backtest_upto data sb rp (Suc k) = step data rp k (backtest_upto data sb rp k)"
  by (simp add: backtest_upto_def)

lemma backtest_upto_0:
  "backtest_upto data sb rp 0 = init_state sb"
  by (simp add: backtest_upto_def)

lemma step_no_signal: "\<not> entry_signal data i \<Longrightarrow> step data rp i st = st"
  by (simp add: step_def)

lemma find_exit_Some:
  "find_exit data i = Some j \<longleftrightarrow>
     i < j \<and> j < length data \<and> SwingHigh (data ! j) \<le> rHigh (data ! j) \<and>
     (\<forall>k. i < k \<and> k < j \<longrightarrow> rHigh (data ! k) < SwingHigh (data ! k))"
  unfolding find_exit_def find_upt_Some by (simp add: Suc_le_eq not_le)

lemma find_exit_None:
  "find_exit data i = None \<longleftrightarrow>
     (\<forall>k. i < k \<and> k < length data \<longrightarrow> rHigh (data ! k) < SwingHigh (data ! k))"
  unfolding find_exit_def find_upt_None by (simp add: Suc_le_eq not_le)

lemma step_exit:
  assumes "entry_signal data i" and "find_exit data i = Some j"
  shows "step data rp i st =
     close_trade data (rDate (data ! i)) (rClose (data ! i))
       ((rp / 100) * account_balance st / rClose (data ! i)) j
       (st \<lparr> written := written st @ [Entry_signal (rDate (data ! i)) (rClose (data ! i))] \<rparr>)"
  using assms by (simp add: step_def Let_def)

lemma step_no_exit:
  assumes "entry_signal data i" and "find_exit data i = None"
  shows "step data rp i st =
       st \<lparr> written := written st @ [Entry_signal (rDate (data ! i)) (rClose (data ! i))] \<rparr>"
  using assms by (simp add: step_def Let_def)

section \<open>Divisions\<close>

text \<open>
  The walk divides by the close of the entry row and by entry price times shares. On a
  table with positive prices, with a risk percentage in (0, 100] and a positive starting
  balance, the balance stays positive and neither divisor is zero, so the quotients of the
  embedding are the quotients of the program.
\<close>

lemma booked_balance_positive:
  fixes bal q e x :: real
  assumes "0 < bal" and "0 < q" and "q \<le> 1" and "0 < e" and "0 < x"
  shows "0 < bal + (x - e) * (q * bal / e)"
proof -
  have "0 \<le> e * (1 - q)" using assms by simp
  moreover have "0 < x * q" using assms by simp
  ultimately have pos: "0 < e * (1 - q) + x * q" by linarith
  have "bal + (x - e) * (q * bal / e) = bal * (e * (1 - q) + x * q) / e"
    using assms(4) by (simp add: field_simps)
  also have "0 < \<dots>" using assms(1,4) pos by simp
  finally show ?thesis .
qed

lemma step_balance_positive:
  assumes prices: "\<forall>r \<in> set data. 0 < rClose r \<and> 0 < SwingHigh r"
    and rp: "0 < rp" "rp \<le> 100" and bal: "0 < account_balance st" and i: "i < length data"
  shows "0 < account_balance (step data rp i st)"
proof (cases "entry_signal data i")
  case False
  with bal show ?thesis by (simp add: step_no_signal)
next
  case True
  show ?thesis
  proof (cases "find_exit data i")
    case None
    with True bal show ?thesis by (simp add: step_no_exit)
  next
    case (Some j)
    then have "j < length data" by (simp add: find_exit_Some)
    with prices i have p: "0 < rClose (data ! i)" "0 < SwingHigh (data ! j)" by simp_all
    from rp have q: "0 < rp / 100" "rp / 100 \<le> 1" by simp_all
    have "account_balance (step data rp i st) =
        account_balance st + (SwingHigh (data ! j) - rClose (data ! i)) *
          (rp / 100 * account_balance st / rClose (data ! i))"
      unfolding step_exit [OF True Some] by (simp add: close_trade_def Let_def)
    also have "0 < \<dots>" using bal q p by (rule booked_balance_positive)
    finally show ?thesis .
  qed
qed

lemma walk_balance_positive:
  assumes "\<forall>r \<in> set data. 0 < rClose r \<and> 0 < SwingHigh r"
    and "0 < rp" "rp \<le> 100" and "0 < sb" and "k \<le> length data"
  shows "0 < account_balance (backtest_upto data sb rp k)"
  using assms(5)
proof (induction k)
  case 0
  with assms(4) show ?case by (simp add: backtest_upto_0 init_state_def)
next
  case (Suc k)
  then have "0 < account_balance (backtest_upto data sb rp k)" "k < length data" by simp_all
  with assms(1-3) show ?case
    unfolding backtest_upto_Suc by (intro step_balance_positive)
qed

lemma walk_divisors_nonzero:
  assumes "\<forall>r \<in> set data. 0 < rClose r \<and> 0 < SwingHigh r"
    and "0 < rp" "rp \<le> 100" and "0 < sb" and "i < length data"
  shows "rClose (data ! i) \<noteq> 0 \<and>
         rClose (data ! i) *
           ((rp / 100) * account_balance (backtest_upto data sb rp i) / rClose (data ! i)) \<noteq> 0"
proof -
  from assms(1,5) have c: "0 < rClose (data ! i)" by simp
  from assms have "0 < account_balance (backtest_upto data sb rp i)"
    by (intro walk_balance_positive) simp_all
  with c assms(2) show ?thesis by simp
qed

section \<open>Retracement levels\<close>

lemma annotate_nth:
  "i < length data \<Longrightarrow> annotate data w ! i =
    \<lparr> aDate = Date (data ! i), aHigh = High (data ! i),
      aLow = Low (data ! i), aClose = Close (data ! i),
      aSwingHigh = rolling_at window_max w (map High data) i,
      aSwingLow = rolling_at window_min w (map Low data) i,
      aFib38 = fib_level (382 / 1000) (rolling_at window_max w (map High data) i)
                 (rolling_at window_min w (map Low data) i),
      aFib50 = fib_level (5 / 10) (rolling_at window_max w (map High data) i)
                 (rolling_at window_min w (map Low data) i),
      aFib61 = fib_level (618 / 1000) (rolling_at window_max w (map High data) i)
                 (rolling_at window_min w (map Low data) i) \<rparr>"
  by (simp add: annotate_def rolling_def Let_def)

lemma length_annotate: "length (annotate data w) = length data"
  by (simp add: annotate_def Let_def)

text \<open>
  Claim C4. On every row of the annotated table whose swing high and swing low are both
  numbers, with the swing high not below the swing low, the three levels are numbers, each
  is the swing high minus the range times its fraction (0.382, 0.5, 0.618), and
  \<open>Fib38 \<ge> Fib50 \<ge> Fib61\<close>.
\<close>

theorem fib_monotone:
  assumes "i < length data"
    and "aSwingHigh (annotate data w ! i) = Some h"
    and "aSwingLow (annotate data w ! i) = Some l"
    and "l \<le> h"
  shows "aFib38 (annotate data w ! i) = Some (h - (h - l) * (382 / 1000)) \<and>
         aFib50 (annotate data w ! i) = Some (h - (h - l) * (5 / 10)) \<and>
         aFib61 (annotate data w ! i) = Some (h - (h - l) * (618 / 1000)) \<and>
         h - (h - l) * (382 / 1000) \<ge> h - (h - l) * (5 / 10) \<and>
         h - (h - l) * (5 / 10) \<ge> h - (h - l) * (618 / 1000)"
  using assms by (simp add: annotate_nth fib_level_def)

theorem fib_monotone_witness:
  "2 < length bars_a \<and>
   aSwingHigh (annotate bars_a 5 ! 2) = Some 20 \<and> aSwingLow (annotate bars_a 5 ! 2) = Some 8 \<and>
   aFib38 (annotate bars_a 5 ! 2) = Some (20 - (20 - 8) * (382 / 1000)) \<and>
   aFib50 (annotate bars_a 5 ! 2) = Some (20 - (20 - 8) * (5 / 10)) \<and>
   aFib61 (annotate bars_a 5 ! 2) = Some (20 - (20 - 8) * (618 / 1000)) \<and>
   (20::real) - (20 - 8) * (382 / 1000) \<ge> 20 - (20 - 8) * (5 / 10) \<and>
   (20::real) - (20 - 8) * (5 / 10) \<ge> 20 - (20 - 8) * (618 / 1000)"
proof -
  have len: "2 < length bars_a" by (simp add: bars_a_def)
  have hi: "aSwingHigh (annotate bars_a 5 ! 2) = Some 20" by code_simp
  have lo: "aSwingLow (annotate bars_a 5 ! 2) = Some 8" by code_simp
  have le: "(8::real) \<le> 20" by simp
  show ?thesis
    by (rule conjI [OF len conjI [OF hi conjI [OF lo fib_monotone [OF len hi lo le]]]])
qed

section \<open>Conservation\<close>

lemma step_conserves:
  "account_balance st = c + total_pnl st \<Longrightarrow>
   account_balance (step data rp i st) = c + total_pnl (step data rp i st)"
  by (simp add: step_def close_trade_def Let_def split: option.split)

lemma upto_conserves:
  "account_balance (backtest_upto data sb rp k) = of_int sb + total_pnl (backtest_upto data sb rp k)"
proof (induction k)
  case 0
  show ?case by (simp add: backtest_upto_0 init_state_def)
next
  case (Suc k)
  then show ?case by (simp only: backtest_upto_Suc step_conserves)
qed

lemma close_trade_fp_exact:
  "close_trade_fp (\<lambda>x. x) data d p sh j st = close_trade data d p sh j st"
  by (simp add: close_trade_fp_def close_trade_def)

lemma step_fp_exact: "step_fp (\<lambda>x. x) data rp i st = step data rp i st"
  by (simp add: step_fp_def step_def close_trade_fp_exact Let_def split: option.split)

lemma backtest_fp_exact: "backtest_fp (\<lambda>x. x) data sb rp = backtest data sb rp"
proof -
  have "step_fp (\<lambda>x. x) data rp = step data rp"
    by (intro ext) (rule step_fp_exact)
  then show ?thesis
    by (simp add: backtest_fp_def backtest_upto_fp_def backtest_def backtest_upto_def)
qed

lemma backtest_upto_fp_Suc:
  "backtest_upto_fp rnd data sb rp (Suc k) = step_fp rnd data rp k (backtest_upto_fp rnd data sb rp k)"
  by (simp add: backtest_upto_fp_def)

lemma step_fp_sums:
  "(transactions (step_fp rnd data rp i st) = transactions st \<and>
    account_balance (step_fp rnd data rp i st) = account_balance st \<and>
    total_pnl (step_fp rnd data rp i st) = total_pnl st) \<or>
   (\<exists>t. transactions (step_fp rnd data rp i st) = transactions st @ [t] \<and>
        account_balance (step_fp rnd data rp i st) = rnd (account_balance st + PL t) \<and>
        total_pnl (step_fp rnd data rp i st) = rnd (total_pnl st + PL t))"
  by (simp add: step_fp_def close_trade_fp_def Let_def split: option.split)

lemma upto_fp_sums:
  "account_balance (backtest_upto_fp rnd data sb rp k) =
     foldl (\<lambda>a p. rnd (a + p)) (of_int sb)
       (map PL (transactions (backtest_upto_fp rnd data sb rp k))) \<and>
   total_pnl (backtest_upto_fp rnd data sb rp k) =
     foldl (\<lambda>a p. rnd (a + p)) 0
       (map PL (transactions (backtest_upto_fp rnd data sb rp k)))"
proof (induction k)
  case 0
  show ?case by (simp add: backtest_upto_fp_def init_state_def)
next
  case (Suc k)
  let ?st = "backtest_upto_fp rnd data sb rp k"
  from step_fp_sums [of rnd data rp k ?st] show ?case
  proof
    assume "transactions (step_fp rnd data rp k ?st) = transactions ?st \<and>
      account_balance (step_fp rnd data rp k ?st) = account_balance ?st \<and>
      total_pnl (step_fp rnd data rp k ?st) = total_pnl ?st"
    with Suc show ?thesis by (simp add: backtest_upto_fp_Suc)
  next
    assume "\<exists>t. transactions (step_fp rnd data rp k ?st) = transactions ?st @ [t] \<and>
        account_balance (step_fp rnd data rp k ?st) = rnd (account_balance ?st + PL t) \<and>
        total_pnl (step_fp rnd data rp k ?st) = rnd (total_pnl ?st + PL t)"
    then obtain t where "transactions (step_fp rnd data rp k ?st) = transactions ?st @ [t]"
      "account_balance (step_fp rnd data rp k ?st) = rnd (account_balance ?st + PL t)"
      "total_pnl (step_fp rnd data rp k ?st) = rnd (total_pnl ?st + PL t)"
      by (elim exE conjE)
    with Suc show ?thesis by (simp add: backtest_upto_fp_Suc)
  qed
qed

text \<open>
  Claim C3 as stated makes the ending balance equal to the starting balance plus the
  total P/L exactly. The program adds the P/L of each trade to two float64 numbers, the
  balance and the total, and rounds each sum on its own. On \<open>rows_b\<close> with a starting
  balance of 10000 and a risk percentage of 1, two trades are booked; the balance ends
  at 10066.77777777778 and the starting balance plus the total at 10066.777777777777,
  one unit in the last place below.
\<close>

theorem conservation_rounded_counterexample:
  "account_balance (backtest_fp float64 rows_b 10000 1) = 5534269610451855 / 549755813888 \<and>
   total_pnl (backtest_fp float64 rows_b 10000 1) = 1174767090299335 / 17592186044416 \<and>
   float64 (of_int 10000 + total_pnl (backtest_fp float64 rows_b 10000 1)) =
     2767134805225927 / 274877906944 \<and>
   account_balance (backtest_fp float64 rows_b 10000 1) \<noteq>
     float64 (of_int 10000 + total_pnl (backtest_fp float64 rows_b 10000 1))"
proof -
  have both: "(let st = backtest_fp float64 rows_b 10000 1 in (account_balance st, total_pnl st)) =
      (5534269610451855 / 549755813888, 1174767090299335 / 17592186044416)"
    by code_simp
  have b: "account_balance (backtest_fp float64 rows_b 10000 1) = 5534269610451855 / 549755813888"
    using both by (simp add: Let_def)
  have t: "total_pnl (backtest_fp float64 rows_b 10000 1) = 1174767090299335 / 17592186044416"
    using both by (simp add: Let_def)
  have s: "float64 (of_int 10000 + 1174767090299335 / 17592186044416) =
     2767134805225927 / 274877906944"
    by code_simp
  have s': "float64 (of_int 10000 + total_pnl (backtest_fp float64 rows_b 10000 1)) =
     2767134805225927 / 274877906944"
    unfolding t by (rule s)
  have ne: "account_balance (backtest_fp float64 rows_b 10000 1) \<noteq>
     float64 (of_int 10000 + total_pnl (backtest_fp float64 rows_b 10000 1))"
    unfolding b s' by simp
  show ?thesis by (rule conjI [OF b conjI [OF t conjI [OF s' ne]]])
qed

text \<open>
  Claim C3, amended. After the walk the balance is the starting balance with the P/L of
  every recorded trade added in the order of the log, and the total P/L is 0 with the
  same values added in the same order, each sum rounded as the arithmetic rounds it. So
  the ending balance equals the starting balance plus the total P/L exactly when the sums
  are exact, and in float64 up to the rounding of the two running sums.
\<close>

theorem conservation_rounded:
  "account_balance (backtest_fp rnd data sb rp) =
     foldl (\<lambda>a p. rnd (a + p)) (of_int sb) (map PL (transactions (backtest_fp rnd data sb rp))) \<and>
   total_pnl (backtest_fp rnd data sb rp) =
     foldl (\<lambda>a p. rnd (a + p)) 0 (map PL (transactions (backtest_fp rnd data sb rp))) \<and>
   backtest_fp (\<lambda>x. x) data sb rp = backtest data sb rp \<and>
   account_balance (backtest data sb rp) = of_int sb + total_pnl (backtest data sb rp)"
proof -
  have exact: "account_balance (backtest data sb rp) = of_int sb + total_pnl (backtest data sb rp)"
    unfolding backtest_def by (rule upto_conserves)
  note sums = upto_fp_sums [of rnd data sb rp "length data", folded backtest_fp_def]
  show ?thesis
    by (rule conjI [OF conjunct1 [OF sums]
          conjI [OF conjunct2 [OF sums] conjI [OF backtest_fp_exact exact]]])
qed

section \<open>One step of the walk\<close>

text \<open>
  Claim C5. When the entry condition holds at row \<open>i\<close>, the rows after \<open>i\<close> are searched in
  order. If \<open>j\<close> is the first of them whose high reaches its swing high, one transaction is
  appended: the exit price is the swing high of row \<open>j\<close>, the exit date its date, the P/L
  is (exit price - entry price) times the shares, and the P/L in percent is the P/L over
  (entry price times shares), times 100; balance and totals grow by these amounts. If no
  row after \<open>i\<close> reaches its swing high, nothing is appended and balance and totals stay as
  they were.
\<close>

theorem exit_search:
  assumes "entry_signal data i"
  shows "(\<forall>j. i < j \<and> j < length data \<and> SwingHigh (data ! j) \<le> rHigh (data ! j) \<and>
              (\<forall>k. i < k \<and> k < j \<longrightarrow> rHigh (data ! k) < SwingHigh (data ! k)) \<longrightarrow>
            (let shares = (rp / 100) * account_balance st / rClose (data ! i);
                 entry_price = rClose (data ! i);
                 exit_price = SwingHigh (data ! j);
                 pnl = (exit_price - entry_price) * shares;
                 pnl_percent = pnl / (entry_price * shares) * 100
             in transactions (step data rp i st) = transactions st @
                  [\<lparr> Entry_Date = rDate (data ! i), Exit_Date = rDate (data ! j),
                     Entry_Price = entry_price, Exit_Price = exit_price,
                     Shares_Bought = shares, Shares_Sold = shares,
                     PL = pnl, PL_percent = pnl_percent,
                     Total_PL = total_pnl st + pnl,
                     Total_PL_percent = total_pnl_percent st + pnl_percent,
                     Account_Balance = account_balance st + pnl \<rparr>] \<and>
                account_balance (step data rp i st) = account_balance st + pnl \<and>
                total_pnl (step data rp i st) = total_pnl st + pnl \<and>
                total_pnl_percent (step data rp i st) = total_pnl_percent st + pnl_percent))
       \<and> ((\<forall>k. i < k \<and> k < length data \<longrightarrow> rHigh (data ! k) < SwingHigh (data ! k)) \<longrightarrow>
            transactions (step data rp i st) = transactions st \<and>
            account_balance (step data rp i st) = account_balance st \<and>
            total_pnl (step data rp i st) = total_pnl st \<and>
            total_pnl_percent (step data rp i st) = total_pnl_percent st)"
proof (intro conjI allI impI)
  fix j
  assume "i < j \<and> j < length data \<and> SwingHigh (data ! j) \<le> rHigh (data ! j) \<and>
              (\<forall>k. i < k \<and> k < j \<longrightarrow> rHigh (data ! k) < SwingHigh (data ! k))"
  then have "find_exit data i = Some j" unfolding find_exit_Some .
  with assms show "let shares = (rp / 100) * account_balance st / rClose (data ! i);
                 entry_price = rClose (data ! i);
                 exit_price = SwingHigh (data ! j);
                 pnl = (exit_price - entry_price) * shares;
                 pnl_percent = pnl / (entry_price * shares) * 100
             in transactions (step data rp i st) = transactions st @
                  [\<lparr> Entry_Date = rDate (data ! i), Exit_Date = rDate (data ! j),
                     Entry_Price = entry_price, Exit_Price = exit_price,
                     Shares_Bought = shares, Shares_Sold = shares,
                     PL = pnl, PL_percent = pnl_percent,
                     Total_PL = total_pnl st + pnl,
                     Total_PL_percent = total_pnl_percent st + pnl_percent,
                     Account_Balance = account_balance st + pnl \<rparr>] \<and>
                account_balance (step data rp i st) = account_balance st + pnl \<and>
                total_pnl (step data rp i st) = total_pnl st + pnl \<and>
                total_pnl_percent (step data rp i st) = total_pnl_percent st + pnl_percent"
    by (simp add: step_exit close_trade_def Let_def)
next
  assume "\<forall>k. i < k \<and> k < length data \<longrightarrow> rHigh (data ! k) < SwingHigh (data ! k)"
  then have "find_exit data i = None" unfolding find_exit_None .
  with assms have s: "step data rp i st =
       st \<lparr> written := written st @ [Entry_signal (rDate (data ! i)) (rClose (data ! i))] \<rparr>"
    by (rule step_no_exit)
  show "transactions (step data rp i st) = transactions st" by (simp add: s)
  show "account_balance (step data rp i st) = account_balance st" by (simp add: s)
  show "total_pnl (step data rp i st) = total_pnl st" by (simp add: s)
  show "total_pnl_percent (step data rp i st) = total_pnl_percent st" by (simp add: s)
qed

theorem exit_search_witness:
  "entry_signal rows_b 1 \<and>
   transactions (step rows_b 5 1 (init_state 10000)) =
     [\<lparr> Entry_Date = 3, Exit_Date = 6, Entry_Price = 15, Exit_Price = 20,
        Shares_Bought = 100 / 3, Shares_Sold = 100 / 3, PL = 500 / 3,
        PL_percent = 100 / 3, Total_PL = 500 / 3, Total_PL_percent = 100 / 3,
        Account_Balance = 30500 / 3 \<rparr>] \<and>
   account_balance (step rows_b 5 1 (init_state 10000)) = 30500 / 3 \<and>
   entry_signal (take 4 rows_b) 1 \<and>
   transactions (step (take 4 rows_b) 5 1 (init_state 10000)) = [] \<and>
   account_balance (step (take 4 rows_b) 5 1 (init_state 10000)) = 10000"
proof -
  have e: "entry_signal rows_b 1"
    by (simp add: entry_signal_def rows_b_def annotated_row_def)
  have e': "entry_signal (take 4 rows_b) 1"
    by (simp add: entry_signal_def rows_b_def annotated_row_def)
  have between: "rHigh (rows_b ! k) < SwingHigh (rows_b ! k)" if "1 < k \<and> k < 4" for k
  proof -
    from that have "k = 2 \<or> k = 3" by arith
    then show ?thesis
    proof
      assume "k = 2"
      then show ?thesis by (simp add: rows_b_def annotated_row_def)
    next
      assume "k = 3"
      then show ?thesis by (simp add: rows_b_def annotated_row_def)
    qed
  qed
  have r1: "rows_b ! Suc 0 = annotated_row 3 16 8 15 16 8"
    and r4: "rows_b ! 4 = annotated_row 6 20 8 15 20 8"
    by (simp_all add: rows_b_def)
  have x: "(1::nat) < 4 \<and> 4 < length rows_b \<and> SwingHigh (rows_b ! 4) \<le> rHigh (rows_b ! 4) \<and>
           (\<forall>k. 1 < k \<and> k < 4 \<longrightarrow> rHigh (rows_b ! k) < SwingHigh (rows_b ! k))"
    using between by (simp add: r4 annotated_row_def rows_b_def)
  have len: "length (take 4 rows_b) = 4" by (simp add: rows_b_def)
  have y: "\<forall>k. 1 < k \<and> k < length (take 4 rows_b) \<longrightarrow>
             rHigh (take 4 rows_b ! k) < SwingHigh (take 4 rows_b ! k)"
    unfolding len using between by simp
  note found = exit_search [OF e, THEN conjunct1, rule_format, OF x,
      where rp = 5 and st = "init_state 10000"]
  note none = exit_search [OF e', THEN conjunct2, rule_format, OF y [rule_format],
      where rp = 5 and st = "init_state 10000"]
  from found have
    "transactions (step rows_b 5 1 (init_state 10000)) =
     [\<lparr> Entry_Date = 3, Exit_Date = 6, Entry_Price = 15, Exit_Price = 20,
        Shares_Bought = 100 / 3, Shares_Sold = 100 / 3, PL = 500 / 3,
        PL_percent = 100 / 3, Total_PL = 500 / 3, Total_PL_percent = 100 / 3,
        Account_Balance = 30500 / 3 \<rparr>] \<and>
     account_balance (step rows_b 5 1 (init_state 10000)) = 30500 / 3"
    by (simp add: Let_def init_state_def r1 r4 annotated_row_def)
  moreover from none have
    "transactions (step (take 4 rows_b) 5 1 (init_state 10000)) = [] \<and>
     account_balance (step (take 4 rows_b) 5 1 (init_state 10000)) = 10000"
    by (simp add: init_state_def)
  ultimately show ?thesis using e e' by simp
qed

section \<open>Falling closes\<close>

lemma decreasing_no_signal:
  assumes "sorted_wrt (>) (map rClose data)" and "i < length data"
  shows "\<not> entry_signal data i"
proof
  assume e: "entry_signal data i"
  then have "0 < i" by (simp add: entry_signal_def)
  with assms have "map rClose data ! (i - 1) > map rClose data ! i"
    by (intro sorted_wrt_nth_less) simp_all
  with assms \<open>0 < i\<close> have "rClose (data ! (i - 1)) > rClose (data ! i)" by simp
  with e show False by (simp add: entry_signal_def)
qed

lemma upto_no_signal:
  "(\<And>i. i < k \<Longrightarrow> \<not> entry_signal data i) \<Longrightarrow> backtest_upto data sb rp k = init_state sb"
  by (induction k) (simp_all add: backtest_upto_0 backtest_upto_Suc step_no_signal)

text \<open>
  Claim C9. On a table whose closes fall strictly from each row to the next, the entry
  condition holds at no row: the walk writes no entry message and records no trade.
\<close>

theorem decreasing_no_trades:
  assumes "sorted_wrt (>) (map rClose data)"
  shows "transactions (backtest data sb rp) = [] \<and> written (backtest data sb rp) = []"
proof -
  have "backtest data sb rp = init_state sb"
    unfolding backtest_def using assms by (intro upto_no_signal decreasing_no_signal)
  then show ?thesis by (simp add: init_state_def)
qed

theorem decreasing_no_trades_witness:
  "sorted_wrt (>) (map rClose rows_c) \<and>
   transactions (backtest rows_c 10000 5) = [] \<and> written (backtest rows_c 10000 5) = []"
proof -
  have falling: "sorted_wrt (>) (map rClose rows_c)"
    by (simp add: rows_c_def annotated_row_def)
  from decreasing_no_trades [OF falling] falling show ?thesis by simp
qed

section \<open>The entry condition\<close>

text \<open>
  Claim C1 as stated compares the close of row \<open>i - 1\<close> with the 50% level of row
  \<open>i - 1\<close>. The program compares it with the 50% level of row \<open>i\<close> (line 123). On the
  table \<open>rows_a\<close>, which the indicator engine makes of \<open>bars_a\<close>, the close of row 1 is
  above its level (11 over 10), the close of row 0 is not above the level of row 0 (11
  under 14), and row 2 offers an exit; the walk opens nothing at row 1 and the whole run
  ends as it started.
\<close>

theorem entry_rule_counterexample:
  "Fib50 (rows_a ! 1) < rClose (rows_a ! 1) \<and> rClose (rows_a ! 0) \<le> Fib50 (rows_a ! 0) \<and>
   SwingHigh (rows_a ! 2) \<le> rHigh (rows_a ! 2) \<and>
   step rows_a 5 1 (init_state 10000) = init_state 10000 \<and>
   run bars_a 5 10000 5 = Inr (init_state 10000)"
proof -
  have "Fib50 (rows_a ! 1) < rClose (rows_a ! 1) \<and> rClose (rows_a ! 0) \<le> Fib50 (rows_a ! 0) \<and>
        SwingHigh (rows_a ! 2) \<le> rHigh (rows_a ! 2)"
    by (simp add: rows_a_def annotated_row_def)
  moreover have "step rows_a 5 1 (init_state 10000) = init_state 10000"
    by (simp add: step_def entry_signal_def rows_a_def annotated_row_def)
  moreover have "run bars_a 5 10000 5 = Inr (init_state 10000)"
    by code_simp
  ultimately show ?thesis by simp
qed

text \<open>
  Claim C1, amended. At every row \<open>i \<ge> 1\<close> the walk opens a trade (and writes the entry
  message with the date and the close of row \<open>i\<close>) exactly when the close of row \<open>i\<close> is
  above the 50% level of row \<open>i\<close> and the close of row \<open>i - 1\<close> is not above the 50% level
  of row \<open>i\<close>; otherwise the state is unchanged. On trigger, the trade that is recorded
  when an exit row follows has shares = (risk percent / 100 times the account balance at
  that moment) / close of row \<open>i\<close>, entry price = close of row \<open>i\<close> and entry date = date
  of row \<open>i\<close>.
\<close>

theorem entry_rule:
  assumes "1 \<le> i" and "i < length data"
  shows "((rClose (data ! i) > Fib50 (data ! i) \<and> rClose (data ! (i - 1)) \<le> Fib50 (data ! i)) \<longleftrightarrow>
           (\<exists>rest. written (step data rp i st) =
               written st @ Entry_signal (rDate (data ! i)) (rClose (data ! i)) # rest))
       \<and> (\<not> (rClose (data ! i) > Fib50 (data ! i) \<and> rClose (data ! (i - 1)) \<le> Fib50 (data ! i)) \<longrightarrow>
            step data rp i st = st)
       \<and> (rClose (data ! i) > Fib50 (data ! i) \<and> rClose (data ! (i - 1)) \<le> Fib50 (data ! i) \<and>
          (\<exists>j. i < j \<and> j < length data \<and> SwingHigh (data ! j) \<le> rHigh (data ! j)) \<longrightarrow>
            (\<exists>t. transactions (step data rp i st) = transactions st @ [t] \<and>
                 Shares_Bought t = ((rp / 100) * account_balance st) / rClose (data ! i) \<and>
                 Entry_Price t = rClose (data ! i) \<and>
                 Entry_Date t = rDate (data ! i)))"
proof -
  let ?c = "rClose (data ! i) > Fib50 (data ! i) \<and> rClose (data ! (i - 1)) \<le> Fib50 (data ! i)"
  have sig: "entry_signal data i \<longleftrightarrow> ?c" using assms by (simp add: entry_signal_def)
  have w: "?c \<Longrightarrow> \<exists>rest. written (step data rp i st) =
               written st @ Entry_signal (rDate (data ! i)) (rClose (data ! i)) # rest"
  proof -
    assume ?c
    with sig have e: "entry_signal data i" by (rule iffD2)
    show ?thesis
    proof (cases "find_exit data i")
      case None
      with e show ?thesis by (simp add: step_no_exit)
    next
      case (Some j)
      with e show ?thesis by (simp add: step_exit close_trade_def Let_def)
    qed
  qed
  have n: "\<not> ?c \<Longrightarrow> step data rp i st = st"
  proof -
    assume "\<not> ?c"
    with sig have "\<not> entry_signal data i" by (simp only: not_False_eq_True)
    then show ?thesis by (rule step_no_signal)
  qed
  have t: "\<exists>t. transactions (step data rp i st) = transactions st @ [t] \<and>
                 Shares_Bought t = ((rp / 100) * account_balance st) / rClose (data ! i) \<and>
                 Entry_Price t = rClose (data ! i) \<and>
                 Entry_Date t = rDate (data ! i)"
    if c: ?c and e: "\<exists>j. i < j \<and> j < length data \<and> SwingHigh (data ! j) \<le> rHigh (data ! j)"
  proof -
    from e obtain j0 where j0: "i < j0" "j0 < length data" "SwingHigh (data ! j0) \<le> rHigh (data ! j0)"
      by blast
    have "find_exit data i \<noteq> None"
    proof
      assume "find_exit data i = None"
      then have "\<forall>k. i < k \<and> k < length data \<longrightarrow> rHigh (data ! k) < SwingHigh (data ! k)"
        unfolding find_exit_None .
      with j0(1,2) have "rHigh (data ! j0) < SwingHigh (data ! j0)" by blast
      with j0(3) show False by simp
    qed
    then obtain j where j: "find_exit data i = Some j" by blast
    from sig c have es: "entry_signal data i" by (rule iffD2)
    show ?thesis by (simp add: step_exit[OF es j] close_trade_def Let_def)
  qed
  have r: "?c" if "\<exists>rest. written (step data rp i st) =
               written st @ Entry_signal (rDate (data ! i)) (rClose (data ! i)) # rest"
  proof (rule ccontr)
    assume "\<not> ?c"
    then have "step data rp i st = st" by (rule n)
    with that show False by simp
  qed
  have A: "?c \<longleftrightarrow> (\<exists>rest. written (step data rp i st) =
               written st @ Entry_signal (rDate (data ! i)) (rClose (data ! i)) # rest)"
  proof
    assume ?c then show "\<exists>rest. written (step data rp i st) =
               written st @ Entry_signal (rDate (data ! i)) (rClose (data ! i)) # rest" by (rule w)
  next
    assume "\<exists>rest. written (step data rp i st) =
               written st @ Entry_signal (rDate (data ! i)) (rClose (data ! i)) # rest"
    then show ?c by (rule r)
  qed
  have B: "\<not> ?c \<longrightarrow> step data rp i st = st"
    by (rule impI) (rule n)
  have C: "rClose (data ! i) > Fib50 (data ! i) \<and> rClose (data ! (i - 1)) \<le> Fib50 (data ! i) \<and>
           (\<exists>j. i < j \<and> j < length data \<and> SwingHigh (data ! j) \<le> rHigh (data ! j)) \<longrightarrow>
            (\<exists>t. transactions (step data rp i st) = transactions st @ [t] \<and>
                 Shares_Bought t = ((rp / 100) * account_balance st) / rClose (data ! i) \<and>
                 Entry_Price t = rClose (data ! i) \<and>
                 Entry_Date t = rDate (data ! i))"
  proof
    assume h: "rClose (data ! i) > Fib50 (data ! i) \<and> rClose (data ! (i - 1)) \<le> Fib50 (data ! i) \<and>
           (\<exists>j. i < j \<and> j < length data \<and> SwingHigh (data ! j) \<le> rHigh (data ! j))"
    then have 1: ?c by simp
    from h have 2: "\<exists>j. i < j \<and> j < length data \<and> SwingHigh (data ! j) \<le> rHigh (data ! j)" by simp
    from 1 2 show "\<exists>t. transactions (step data rp i st) = transactions st @ [t] \<and>
                 Shares_Bought t = ((rp / 100) * account_balance st) / rClose (data ! i) \<and>
                 Entry_Price t = rClose (data ! i) \<and>
                 Entry_Date t = rDate (data ! i)" by (rule t)
  qed
  show ?thesis
    by (rule conjI[OF A conjI[OF B C]])
qed

theorem entry_rule_witness:
  "(1::nat) \<le> 1 \<and> 1 < length rows_b \<and>
   Fib50 (rows_b ! 1) < rClose (rows_b ! 1) \<and> rClose (rows_b ! 0) \<le> Fib50 (rows_b ! 1) \<and>
   (\<exists>rest. written (step rows_b 5 1 (init_state 10000)) = Entry_signal 3 15 # rest) \<and>
   (\<exists>t. transactions (step rows_b 5 1 (init_state 10000)) = [t] \<and>
        Shares_Bought t = 100 / 3 \<and> Entry_Price t = 15 \<and> Entry_Date t = 3)"
proof -
  have one: "(1::nat) \<le> 1" by simp
  have len: "1 < length rows_b" by (simp add: rows_b_def)
  have r0: "rows_b ! 0 = annotated_row 2 16 8 9 16 8"
    and r1: "rows_b ! 1 = annotated_row 3 16 8 15 16 8"
      "rows_b ! Suc 0 = annotated_row 3 16 8 15 16 8"
    and r4: "rows_b ! 4 = annotated_row 6 20 8 15 20 8"
    by (simp_all add: rows_b_def)
  have c: "Fib50 (rows_b ! 1) < rClose (rows_b ! 1) \<and> rClose (rows_b ! (1 - 1)) \<le> Fib50 (rows_b ! 1)"
    by (simp add: r0 r1 annotated_row_def)
  have x: "\<exists>j. 1 < j \<and> j < length rows_b \<and> SwingHigh (rows_b ! j) \<le> rHigh (rows_b ! j)"
  proof (intro exI conjI)
    show "(1::nat) < 4" by simp
    show "4 < length rows_b" by (simp add: rows_b_def)
    show "SwingHigh (rows_b ! 4) \<le> rHigh (rows_b ! 4)" by (simp add: r4 annotated_row_def)
  qed
  note rule = entry_rule [OF one len, where rp = 5 and st = "init_state 10000"]
  from rule [THEN conjunct1] c
  have "\<exists>rest. written (step rows_b 5 1 (init_state 10000)) =
               written (init_state 10000) @ Entry_signal (rDate (rows_b ! 1)) (rClose (rows_b ! 1)) # rest"
    by (rule iffD1)
  then have w: "\<exists>rest. written (step rows_b 5 1 (init_state 10000)) = Entry_signal 3 15 # rest"
    by (simp add: init_state_def r1 annotated_row_def)
  from c x have "Fib50 (rows_b ! 1) < rClose (rows_b ! 1) \<and> rClose (rows_b ! (1 - 1)) \<le> Fib50 (rows_b ! 1) \<and>
      (\<exists>j. 1 < j \<and> j < length rows_b \<and> SwingHigh (rows_b ! j) \<le> rHigh (rows_b ! j))"
    by simp
  with rule [THEN conjunct2, THEN conjunct2]
  have "\<exists>t. transactions (step rows_b 5 1 (init_state 10000)) = transactions (init_state 10000) @ [t] \<and>
                 Shares_Bought t = ((5 / 100) * account_balance (init_state 10000)) / rClose (rows_b ! 1) \<and>
                 Entry_Price t = rClose (rows_b ! 1) \<and>
                 Entry_Date t = rDate (rows_b ! 1)"
    by (rule mp)
  then have t: "\<exists>t. transactions (step rows_b 5 1 (init_state 10000)) = [t] \<and>
        Shares_Bought t = 100 / 3 \<and> Entry_Price t = 15 \<and> Entry_Date t = 3"
    by (simp add: init_state_def r1 annotated_row_def)
  from c have c': "Fib50 (rows_b ! 1) < rClose (rows_b ! 1) \<and> rClose (rows_b ! 0) \<le> Fib50 (rows_b ! 1)"
    by simp
  from one len c' w t show ?thesis by simp
qed

section \<open>The order of the trade log\<close>

lemma step_transactions:
  "transactions (step data rp i st) = transactions st \<or>
   (\<exists>j t. find_exit data i = Some j \<and>
          transactions (step data rp i st) = transactions st @ [t] \<and>
          Entry_Date t = rDate (data ! i) \<and> Exit_Date t = rDate (data ! j))"
proof (cases "entry_signal data i")
  case False
  then show ?thesis by (simp add: step_no_signal)
next
  case True
  show ?thesis
  proof (cases "find_exit data i")
    case None
    with True show ?thesis by (simp add: step_no_exit)
  next
    case (Some j)
    with True show ?thesis by (simp add: step_exit close_trade_def Let_def)
  qed
qed

lemma upto_log_indices:
  "\<exists>ijs. map (\<lambda>t. (Entry_Date t, Exit_Date t)) (transactions (backtest_upto data sb rp k)) =
            map (\<lambda>(i, j). (rDate (data ! i), rDate (data ! j))) ijs \<and>
         (\<forall>(i, j) \<in> set ijs. i < k \<and> i < j \<and> j < length data) \<and>
         sorted_wrt (<) (map fst ijs)"
proof (induction k)
  case 0
  show ?case by (rule exI [of _ "[]"]) (simp add: backtest_upto_0 init_state_def)
next
  case (Suc k)
  then obtain ijs where
    m: "map (\<lambda>t. (Entry_Date t, Exit_Date t)) (transactions (backtest_upto data sb rp k)) =
          map (\<lambda>(i, j). (rDate (data ! i), rDate (data ! j))) ijs"
    and b: "\<forall>(i, j) \<in> set ijs. i < k \<and> i < j \<and> j < length data"
    and s: "sorted_wrt (<) (map fst ijs)"
    by blast
  let ?st = "backtest_upto data sb rp k"
  from step_transactions [of data rp k ?st] show ?case
  proof
    assume "transactions (step data rp k ?st) = transactions ?st"
    with m have "map (\<lambda>t. (Entry_Date t, Exit_Date t)) (transactions (backtest_upto data sb rp (Suc k))) =
          map (\<lambda>(i, j). (rDate (data ! i), rDate (data ! j))) ijs"
      by (simp add: backtest_upto_Suc)
    moreover from b have "\<forall>(i, j) \<in> set ijs. i < Suc k \<and> i < j \<and> j < length data"
      by auto
    ultimately show ?thesis using s by blast
  next
    assume "\<exists>j t. find_exit data k = Some j \<and>
          transactions (step data rp k ?st) = transactions ?st @ [t] \<and>
          Entry_Date t = rDate (data ! k) \<and> Exit_Date t = rDate (data ! j)"
    then obtain j t where f: "find_exit data k = Some j"
      and t: "transactions (step data rp k ?st) = transactions ?st @ [t]"
      and d: "Entry_Date t = rDate (data ! k)" "Exit_Date t = rDate (data ! j)"
      by blast
    from f have kj: "k < j" "j < length data" by (simp_all add: find_exit_Some)
    have "map (\<lambda>t. (Entry_Date t, Exit_Date t)) (transactions (backtest_upto data sb rp (Suc k))) =
          map (\<lambda>(i, j). (rDate (data ! i), rDate (data ! j))) (ijs @ [(k, j)])"
      using m t d by (simp add: backtest_upto_Suc)
    moreover from b kj have "\<forall>(i, j) \<in> set (ijs @ [(k, j)]). i < Suc k \<and> i < j \<and> j < length data"
      by auto
    moreover from b s have "sorted_wrt (<) (map fst (ijs @ [(k, j)]))"
      by (auto simp: sorted_wrt_append)
    ultimately show ?thesis by blast
  qed
qed

text \<open>
  Claim C10. Every recorded trade takes its entry from a row \<open>i\<close> and its exit from a
  later row \<open>j\<close> of the table, and the trades stand in the log in the order of their
  entry rows (no two share one). So, on a table whose dates ascend, every entry date is
  before its exit date and the entry dates ascend along the log.
\<close>

theorem trade_order:
  "(\<exists>ijs. map (\<lambda>t. (Entry_Date t, Exit_Date t)) (transactions (backtest data sb rp)) =
            map (\<lambda>(i, j). (rDate (data ! i), rDate (data ! j))) ijs \<and>
          (\<forall>(i, j) \<in> set ijs. i < j \<and> j < length data) \<and>
          sorted_wrt (<) (map fst ijs)) \<and>
   (sorted_wrt (<) (map rDate data) \<longrightarrow>
      (\<forall>t \<in> set (transactions (backtest data sb rp)). Entry_Date t < Exit_Date t) \<and>
      sorted_wrt (<) (map Entry_Date (transactions (backtest data sb rp))))"
proof -
  let ?log = "transactions (backtest data sb rp)"
  from upto_log_indices [of data sb rp "length data"] obtain ijs where
    m: "map (\<lambda>t. (Entry_Date t, Exit_Date t)) ?log =
          map (\<lambda>(i, j). (rDate (data ! i), rDate (data ! j))) ijs"
    and b: "\<forall>(i, j) \<in> set ijs. i < length data \<and> i < j \<and> j < length data"
    and s: "sorted_wrt (<) (map fst ijs)"
    unfolding backtest_def by blast
  from b have b': "\<forall>(i, j) \<in> set ijs. i < j \<and> j < length data" by auto
  have dates: "(\<forall>t \<in> set ?log. Entry_Date t < Exit_Date t) \<and> sorted_wrt (<) (map Entry_Date ?log)"
    if asc: "sorted_wrt (<) (map rDate data)"
  proof
    have mono: "rDate (data ! i) < rDate (data ! j)" if "i < j" "j < length data" for i j
      using sorted_wrt_nth_less [OF asc, of i j] that by simp
    show "\<forall>t \<in> set ?log. Entry_Date t < Exit_Date t"
    proof
      fix t assume "t \<in> set ?log"
      then have "(Entry_Date t, Exit_Date t) \<in> set (map (\<lambda>t. (Entry_Date t, Exit_Date t)) ?log)"
        by simp
      with m have "(Entry_Date t, Exit_Date t) \<in> set (map (\<lambda>(i, j). (rDate (data ! i), rDate (data ! j))) ijs)"
        by simp
      then obtain i j where "(i, j) \<in> set ijs" "Entry_Date t = rDate (data ! i)" "Exit_Date t = rDate (data ! j)"
        by auto
      with b' mono show "Entry_Date t < Exit_Date t" by auto
    qed
    have "map Entry_Date ?log = map fst (map (\<lambda>t. (Entry_Date t, Exit_Date t)) ?log)"
      by simp
    also have "\<dots> = map (\<lambda>i. rDate (data ! i)) (map fst ijs)"
      unfolding m by (simp add: case_prod_beta)
    finally have e: "map Entry_Date ?log = map (\<lambda>i. rDate (data ! i)) (map fst ijs)" .
    have "sorted_wrt (\<lambda>i i'. rDate (data ! i) < rDate (data ! i')) (map fst ijs)"
    proof (rule sorted_wrt_mono_rel [OF _ s])
      fix i i' assume "i \<in> set (map fst ijs)" "i' \<in> set (map fst ijs)" "i < i'"
      moreover from this b have "i' < length data" by auto
      ultimately show "rDate (data ! i) < rDate (data ! i')" using mono by simp
    qed
    then show "sorted_wrt (<) (map Entry_Date ?log)"
      unfolding e by (simp add: sorted_wrt_map)
  qed
  from m b' s have "\<exists>ijs. map (\<lambda>t. (Entry_Date t, Exit_Date t)) ?log =
            map (\<lambda>(i, j). (rDate (data ! i), rDate (data ! j))) ijs \<and>
          (\<forall>(i, j) \<in> set ijs. i < j \<and> j < length data) \<and>
          sorted_wrt (<) (map fst ijs)"
    by blast
  with dates show ?thesis by blast
qed

theorem trade_order_witness:
  "sorted_wrt (<) (map rDate rows_b) \<and>
   map (\<lambda>t. (Entry_Date t, Exit_Date t)) (transactions (backtest rows_b 10000 5)) =
     [(3, 6), (5, 6)] \<and>
   Entry_Date (transactions (backtest rows_b 10000 5) ! 1) <
     Exit_Date (transactions (backtest rows_b 10000 5) ! 1) \<and>
   sorted_wrt (<) (map Entry_Date (transactions (backtest rows_b 10000 5)))"
proof -
  have asc: "sorted_wrt (<) (map rDate rows_b)"
    by (simp add: rows_b_def annotated_row_def)
  have log: "map (\<lambda>t. (Entry_Date t, Exit_Date t)) (transactions (backtest rows_b 10000 5)) =
     [(3, 6), (5, 6)]"
    by code_simp
  then have "length (transactions (backtest rows_b 10000 5)) = 2"
    using length_map [of "\<lambda>t. (Entry_Date t, Exit_Date t)" "transactions (backtest rows_b 10000 5)"]
    by simp
  then have mem: "transactions (backtest rows_b 10000 5) ! 1 \<in> set (transactions (backtest rows_b 10000 5))"
    by simp
  note order = trade_order [of rows_b 10000 5, THEN conjunct2, THEN mp, OF asc]
  from order mem have "Entry_Date (transactions (backtest rows_b 10000 5) ! 1) <
     Exit_Date (transactions (backtest rows_b 10000 5) ! 1)"
    by blast
  with asc log order show ?thesis by blast
qed

section \<open>Two entries before one exit\<close>

lemma upto_skip:
  assumes "a \<le> b" and "\<forall>k. a \<le> k \<and> k < b \<longrightarrow> \<not> entry_signal data k"
  shows "backtest_upto data sb rp b = backtest_upto data sb rp a"
  using assms
proof (induction b)
  case 0
  then show ?case by simp
next
  case (Suc b)
  show ?case
  proof (cases "a = Suc b")
    case True
    then show ?thesis by simp
  next
    case False
    with Suc.prems have ab: "a \<le> b" by simp
    from Suc.prems have "\<forall>k. a \<le> k \<and> k < b \<longrightarrow> \<not> entry_signal data k" by simp
    with ab have "backtest_upto data sb rp b = backtest_upto data sb rp a" by (rule Suc.IH)
    moreover from Suc.prems ab have "\<not> entry_signal data b" by simp
    ultimately show ?thesis by (simp add: backtest_upto_Suc step_no_signal)
  qed
qed

lemma close_trade_log:
  "\<exists>t. transactions (close_trade data d p sh j (st \<lparr> written := w \<rparr>)) = transactions st @ [t] \<and>
       Entry_Date t = d \<and> Exit_Date t = rDate (data ! j) \<and> Shares_Bought t = sh \<and>
       Account_Balance t = account_balance st + PL t \<and>
       account_balance (close_trade data d p sh j (st \<lparr> written := w \<rparr>)) = account_balance st + PL t"
  by (simp add: close_trade_def Let_def)

text \<open>
  Claim C2 as stated sizes the second entry from the balance before the exit of the first
  trade. In the program the search for the exit runs inside the step of the entry row, so
  the first trade is closed and booked before the walk reaches the second entry. On
  \<open>rows_b\<close> the closes cross their level at rows 1 and 3 and row 4 is the first exit
  after row 1: both trades are recorded, both leave on day 6, and the second buys
  305/9 shares, 5% of the balance 30500/3 after the first trade over the close 15, not
  5% of 10000 over 15.
\<close>

theorem reentry_counterexample:
  "indicator_engine bars_b 5 = Inr rows_b \<and>
   entry_signal rows_b 1 \<and> entry_signal rows_b 3 \<and> find_exit rows_b 1 = Some 4 \<and>
   map Exit_Date (transactions (backtest rows_b 10000 5)) = [6, 6] \<and>
   map Shares_Bought (transactions (backtest rows_b 10000 5)) = [100 / 3, 305 / 9] \<and>
   map Account_Balance (transactions (backtest rows_b 10000 5)) = [30500 / 3, 93025 / 9] \<and>
   Shares_Bought (transactions (backtest rows_b 10000 5) ! 1) \<noteq>
     (5 / 100) * 10000 / rClose (rows_b ! 3)"
proof -
  have "indicator_engine bars_b 5 = Inr rows_b" by code_simp
  moreover have "entry_signal rows_b 1 \<and> entry_signal rows_b 3"
    by (simp add: entry_signal_def rows_b_def annotated_row_def)
  moreover have "find_exit rows_b 1 = Some 4" by code_simp
  moreover have "map Exit_Date (transactions (backtest rows_b 10000 5)) = [6, 6]"
    by code_simp
  moreover have s: "map Shares_Bought (transactions (backtest rows_b 10000 5)) = [100 / 3, 305 / 9]"
    by code_simp
  moreover have "map Account_Balance (transactions (backtest rows_b 10000 5)) = [30500 / 3, 93025 / 9]"
    by code_simp
  moreover have "Shares_Bought (transactions (backtest rows_b 10000 5) ! 1) \<noteq>
     (5 / 100) * 10000 / rClose (rows_b ! 3)"
    by code_simp
  ultimately show ?thesis by simp
qed

text \<open>
  Claim C2, amended. If the entry condition holds at rows \<open>i1 < i2\<close> and at no row between
  them, and the first exit row \<open>j\<close> after \<open>i1\<close> lies after \<open>i2\<close>, then both trades are
  recorded, one after the other, both with the exit date of row \<open>j\<close>; the first is sized
  from the balance with which the walk reached row \<open>i1\<close>, and the second from that balance
  plus the P/L of the first trade, which has been booked already.
\<close>

theorem reentry_sizing:
  assumes e1: "entry_signal data i1" and e2: "entry_signal data i2" and lt: "i1 < i2"
    and quiet: "\<forall>k. i1 < k \<and> k < i2 \<longrightarrow> \<not> entry_signal data k"
    and exit: "i1 < j \<and> j < length data \<and> SwingHigh (data ! j) \<le> rHigh (data ! j) \<and>
               (\<forall>k. i1 < k \<and> k < j \<longrightarrow> rHigh (data ! k) < SwingHigh (data ! k))"
    and before: "i2 < j"
  shows "\<exists>t1 t2.
           transactions (backtest_upto data sb rp (Suc i2)) =
             transactions (backtest_upto data sb rp i1) @ [t1, t2] \<and>
           Entry_Date t1 = rDate (data ! i1) \<and> Exit_Date t1 = rDate (data ! j) \<and>
           Entry_Date t2 = rDate (data ! i2) \<and> Exit_Date t2 = rDate (data ! j) \<and>
           Shares_Bought t1 =
             (rp / 100) * account_balance (backtest_upto data sb rp i1) / rClose (data ! i1) \<and>
           Account_Balance t1 = account_balance (backtest_upto data sb rp i1) + PL t1 \<and>
           Shares_Bought t2 =
             (rp / 100) * (account_balance (backtest_upto data sb rp i1) + PL t1)
               / rClose (data ! i2)"
proof -
  let ?sa = "backtest_upto data sb rp i1"
  let ?sb = "backtest_upto data sb rp (Suc i1)"
  let ?sc = "backtest_upto data sb rp i2"
  let ?sd = "backtest_upto data sb rp (Suc i2)"
  from exit have f1: "find_exit data i1 = Some j" unfolding find_exit_Some .
  have "i2 < j \<and> j < length data \<and> SwingHigh (data ! j) \<le> rHigh (data ! j) \<and>
        (\<forall>k. i2 < k \<and> k < j \<longrightarrow> rHigh (data ! k) < SwingHigh (data ! k))"
    using exit before lt by auto
  then have f2: "find_exit data i2 = Some j" unfolding find_exit_Some .
  have s1: "?sb = close_trade data (rDate (data ! i1)) (rClose (data ! i1))
       ((rp / 100) * account_balance ?sa / rClose (data ! i1)) j
       (?sa \<lparr> written := written ?sa @ [Entry_signal (rDate (data ! i1)) (rClose (data ! i1))] \<rparr>)"
    unfolding backtest_upto_Suc using e1 f1 by (rule step_exit)
  have "Suc i1 \<le> i2" using lt by simp
  moreover have "\<forall>k. Suc i1 \<le> k \<and> k < i2 \<longrightarrow> \<not> entry_signal data k"
    using quiet by (simp add: Suc_le_eq)
  ultimately have s2: "?sc = ?sb" by (rule upto_skip)
  have s3: "?sd = close_trade data (rDate (data ! i2)) (rClose (data ! i2))
       ((rp / 100) * account_balance ?sb / rClose (data ! i2)) j
       (?sb \<lparr> written := written ?sb @ [Entry_signal (rDate (data ! i2)) (rClose (data ! i2))] \<rparr>)"
    unfolding backtest_upto_Suc [of data sb rp i2] s2 using e2 f2 by (rule step_exit)
  from close_trade_log [where data = data and d = "rDate (data ! i1)" and p = "rClose (data ! i1)"
      and sh = "(rp / 100) * account_balance ?sa / rClose (data ! i1)" and j = j and st = ?sa
      and w = "written ?sa @ [Entry_signal (rDate (data ! i1)) (rClose (data ! i1))]"]
  obtain t1 where t1: "transactions ?sb = transactions ?sa @ [t1]"
      "Entry_Date t1 = rDate (data ! i1)" "Exit_Date t1 = rDate (data ! j)"
      "Shares_Bought t1 = (rp / 100) * account_balance ?sa / rClose (data ! i1)"
      "Account_Balance t1 = account_balance ?sa + PL t1"
      "account_balance ?sb = account_balance ?sa + PL t1"
    unfolding s1 [symmetric] by (elim exE conjE)
  from close_trade_log [where data = data and d = "rDate (data ! i2)" and p = "rClose (data ! i2)"
      and sh = "(rp / 100) * account_balance ?sb / rClose (data ! i2)" and j = j and st = ?sb
      and w = "written ?sb @ [Entry_signal (rDate (data ! i2)) (rClose (data ! i2))]"]
  obtain t2 where t2: "transactions ?sd = transactions ?sb @ [t2]"
      "Entry_Date t2 = rDate (data ! i2)" "Exit_Date t2 = rDate (data ! j)"
      "Shares_Bought t2 = (rp / 100) * account_balance ?sb / rClose (data ! i2)"
    unfolding s3 [symmetric] by (elim exE conjE)
  from t2(1) t1(1) have "transactions ?sd = transactions ?sa @ [t1, t2]" by simp
  moreover from t2(4) t1(6) have "Shares_Bought t2 =
      (rp / 100) * (account_balance ?sa + PL t1) / rClose (data ! i2)"
    by (simp only:)
  ultimately show ?thesis using t1(2-5) t2(2,3) by (intro exI conjI)
qed


theorem reentry_sizing_witness:
  "entry_signal rows_b 1 \<and> entry_signal rows_b 3 \<and>
   (\<exists>t1 t2. transactions (backtest_upto rows_b 10000 5 4) = [t1, t2] \<and>
        Entry_Date t1 = 3 \<and> Exit_Date t1 = 6 \<and> Entry_Date t2 = 5 \<and> Exit_Date t2 = 6 \<and>
        Shares_Bought t1 = (5 / 100) * 10000 / 15 \<and>
        Account_Balance t1 = 10000 + PL t1 \<and>
        Shares_Bought t2 = (5 / 100) * (10000 + PL t1) / 15)"
proof -
  have e1: "entry_signal rows_b 1" and e2: "entry_signal rows_b 3"
    by (simp_all add: entry_signal_def rows_b_def annotated_row_def)
  have lt: "(1::nat) < 3" by simp
  have quiet: "\<forall>k. 1 < k \<and> k < 3 \<longrightarrow> \<not> entry_signal rows_b k"
  proof (intro allI impI)
    fix k :: nat assume "1 < k \<and> k < 3"
    then have "k = 2" by arith
    then show "\<not> entry_signal rows_b k"
      by (simp add: entry_signal_def rows_b_def annotated_row_def)
  qed
  have between: "rHigh (rows_b ! k) < SwingHigh (rows_b ! k)" if "1 < k \<and> k < 4" for k
  proof -
    from that have "k = 2 \<or> k = 3" by arith
    then show ?thesis
    proof
      assume "k = 2"
      then show ?thesis by (simp add: rows_b_def annotated_row_def)
    next
      assume "k = 3"
      then show ?thesis by (simp add: rows_b_def annotated_row_def)
    qed
  qed
  have exit: "(1::nat) < 4 \<and> 4 < length rows_b \<and> SwingHigh (rows_b ! 4) \<le> rHigh (rows_b ! 4) \<and>
           (\<forall>k. 1 < k \<and> k < 4 \<longrightarrow> rHigh (rows_b ! k) < SwingHigh (rows_b ! k))"
    using between by (simp add: annotated_row_def rows_b_def)
  have before: "(3::nat) < 4" by simp
  have start: "backtest_upto rows_b 10000 5 1 = init_state 10000"
    by code_simp
  have r: "rows_b ! 1 = annotated_row 3 16 8 15 16 8" "rows_b ! 3 = annotated_row 5 16 8 15 20 8"
      "rows_b ! 4 = annotated_row 6 20 8 15 20 8"
    by (simp_all add: rows_b_def)
  have four: "Suc 3 = 4" by simp
  from reentry_sizing [OF e1 e2 lt quiet exit before, of 10000 5]
  have "\<exists>t1 t2. transactions (backtest_upto rows_b 10000 5 4) = [t1, t2] \<and>
        Entry_Date t1 = 3 \<and> Exit_Date t1 = 6 \<and> Entry_Date t2 = 5 \<and> Exit_Date t2 = 6 \<and>
        Shares_Bought t1 = (5 / 100) * 10000 / 15 \<and>
        Account_Balance t1 = 10000 + PL t1 \<and>
        Shares_Bought t2 = (5 / 100) * (10000 + PL t1) / 15"
    unfolding start four r by (simp add: init_state_def annotated_row_def)
  with e1 e2 show ?thesis by simp
qed

section \<open>A window as long as the table\<close>

lemma half_sum: "0 < w \<Longrightarrow> w div 2 + (w - 1) div 2 + 1 = (w::nat)"
  by presburger

lemma rolling_at_full:
  assumes "length xs = w" and "0 < w" and "i < w"
  shows "rolling_at agg w xs i = (if i = w div 2 then agg xs else None)"
proof (cases "i = w div 2")
  case True
  with half_sum [OF assms(2)] have e: "i + 1 + (w - 1) div 2 = w" by simp
  with assms(1) show ?thesis
    by (simp add: rolling_at_def window_bounds_def Let_def True)
next
  case False
  with half_sum [OF assms(2)] have ne: "i + 1 + (w - 1) div 2 \<noteq> w" by arith
  have "(w - 1) div 2 < w" using assms(2) by arith
  with ne assms have "min w (i + 1 + (w - 1) div 2) - min w (i + 1 + (w - 1) div 2 - w) < w"
    by arith
  with assms(1) False show ?thesis
    by (simp add: rolling_at_def window_bounds_def Let_def)
qed

lemma window_max_Some: "xs \<noteq> [] \<Longrightarrow> \<exists>v. window_max xs = Some v"
  by (cases xs) (simp_all add: window_max_def)

lemma window_min_Some: "xs \<noteq> [] \<Longrightarrow> \<exists>v. window_min xs = Some v"
  by (cases xs) (simp_all add: window_min_def)


lemma map_filter_none:
  "(\<And>x. x \<in> set xs \<Longrightarrow> f x = None) \<Longrightarrow> List.map_filter f xs = []"
  by (induction xs) (simp_all add: map_filter_simps)

lemma map_filter_single:
  assumes m: "m < length xs" and hit: "f (xs ! m) = Some r"
    and miss: "\<And>i. i < length xs \<Longrightarrow> i \<noteq> m \<Longrightarrow> f (xs ! i) = None"
  shows "List.map_filter f xs = [r]"
  using assms
proof (induction xs arbitrary: m)
  case Nil
  then show ?case by simp
next
  case (Cons x xs)
  show ?case
  proof (cases m)
    case 0
    have "f y = None" if "y \<in> set xs" for y
    proof -
      from that obtain i where i: "i < length xs" "xs ! i = y"
        unfolding in_set_conv_nth by blast
      from i(1) have "f ((x # xs) ! Suc i) = None"
        using 0 by (intro Cons.prems(3)) simp_all
      with i(2) show ?thesis by simp
    qed
    then have "List.map_filter f xs = []" by (rule map_filter_none)
    moreover from Cons.prems(2) 0 have "f x = Some r" by simp
    ultimately show ?thesis by (simp add: map_filter_simps)
  next
    case (Suc n)
    have "f ((x # xs) ! 0) = None"
      using Suc by (intro Cons.prems(3)) simp_all
    then have x: "f x = None" by simp
    have "List.map_filter f xs = [r]"
    proof (rule Cons.IH)
      show "n < length xs" using Cons.prems(1) Suc by simp
      show "f (xs ! n) = Some r" using Cons.prems(2) Suc by simp
      show "f (xs ! i) = None" if "i < length xs" "i \<noteq> n" for i
      proof -
        have "f ((x # xs) ! Suc i) = None"
          using that Suc by (intro Cons.prems(3)) simp_all
        then show ?thesis by simp
      qed
    qed
    with x show ?thesis by (simp add: map_filter_simps)
  qed
qed

text \<open>
  Claim C6 as stated has no row with swing values and a validation failure when the
  swing length equals the number of rows. The centred window of that length fits exactly
  once, around the middle row: on the five days of \<open>bars_d\<close> with swing length 5, row 2
  has swing high 15 and swing low 7, no check fails, and the engine hands one row on.
\<close>

theorem window_as_long_as_table_counterexample:
  "length bars_d = 5 \<and>
   map aSwingHigh (annotate bars_d 5) = [None, None, Some 15, None, None] \<and>
   map aSwingLow (annotate bars_d 5) = [None, None, Some 7, None, None] \<and>
   indicator_engine bars_d 5 = Inr [annotated_row 2 13 7 12 15 7]"
proof -
  have "length bars_d = 5" by (simp add: bars_d_def)
  moreover have "map aSwingHigh (annotate bars_d 5) = [None, None, Some 15, None, None]"
    by code_simp
  moreover have "map aSwingLow (annotate bars_d 5) = [None, None, Some 7, None, None]"
    by code_simp
  moreover have "indicator_engine bars_d 5 = Inr [annotated_row 2 13 7 12 15 7]"
    by code_simp
  ultimately show ?thesis by simp
qed

text \<open>
  Claim C6, amended. For every non-empty table whose swing length equals its number of
  rows, exactly one row has swing values, the row at position swing length div 2 (both the
  swing high and the swing low, and no other row either of them); the indicator engine
  reports no failure and hands on the annotated table of that one row.
\<close>

theorem window_as_long_as_table:
  assumes len: "length data = swing_length" and pos: "0 < swing_length"
  shows "(\<forall>i<length data.
            (aSwingHigh (annotate data swing_length ! i) \<noteq> None) = (i = swing_length div 2) \<and>
            (aSwingLow (annotate data swing_length ! i) \<noteq> None) = (i = swing_length div 2)) \<and>
         (\<exists>r. indicator_engine data swing_length = Inr [r] \<and>
              rDate r = Date (data ! (swing_length div 2)))"
proof -
  let ?w = swing_length
  let ?m = "swing_length div 2"
  let ?tbl = "annotate data swing_length"
  from pos have m: "?m < ?w" by simp
  from len pos have ne: "map High data \<noteq> []" "map Low data \<noteq> []" "data \<noteq> []" by auto
  from window_max_Some [OF ne(1)] obtain h where h: "window_max (map High data) = Some h" ..
  from window_min_Some [OF ne(2)] obtain l where l: "window_min (map Low data) = Some l" ..
  have hi: "aSwingHigh (?tbl ! i) = (if i = ?m then Some h else None)" if "i < ?w" for i
    using that len pos h by (simp add: annotate_nth rolling_at_full)
  have lo: "aSwingLow (?tbl ! i) = (if i = ?m then Some l else None)" if "i < ?w" for i
    using that len pos l by (simp add: annotate_nth rolling_at_full)
  have fib: "aFib38 (?tbl ! ?m) \<noteq> None" "aFib50 (?tbl ! ?m) = Some (h - (h - l) * (5 / 10))"
      "aFib61 (?tbl ! ?m) \<noteq> None"
    using m len pos h l by (simp_all add: annotate_nth rolling_at_full fib_level_def)
  have first: "\<forall>i<length data.
            (aSwingHigh (?tbl ! i) \<noteq> None) = (i = ?m) \<and> (aSwingLow (?tbl ! i) \<noteq> None) = (i = ?m)"
    using hi lo len by simp
  have lt: "length ?tbl = ?w" using len by (simp add: length_annotate)
  have not_null: "\<not> all_null (map g ?tbl)" if "g (?tbl ! ?m) \<noteq> None" for g :: "annotated \<Rightarrow> real option"
    unfolding all_null_def list_all_length using that m lt by auto
  have checks: "\<not> all_null (map aSwingHigh ?tbl)" "\<not> all_null (map aSwingLow ?tbl)"
      "\<not> all_null (map aFib38 ?tbl)" "\<not> all_null (map aFib50 ?tbl)" "\<not> all_null (map aFib61 ?tbl)"
    using fib hi [OF m] lo [OF m] by (simp_all add: not_null)
  let ?r = "\<lparr> rDate = aDate (?tbl ! ?m), rHigh = aHigh (?tbl ! ?m), rLow = aLow (?tbl ! ?m),
              rClose = aClose (?tbl ! ?m), SwingHigh = h, SwingLow = l,
              Fib38 = aFib38 (?tbl ! ?m), Fib50 = h - (h - l) * (5 / 10),
              Fib61 = aFib61 (?tbl ! ?m) \<rparr>"
  have keep: "keep_row (?tbl ! ?m) = Some ?r"
    using hi [OF m] lo [OF m] fib(2) by (simp add: keep_row_def)
  have others: "keep_row (?tbl ! i) = None" if "i < length ?tbl" "i \<noteq> ?m" for i
    using that hi [of i] lt by (simp add: keep_row_def split: option.split)
  have "dropna ?tbl = [?r]"
    unfolding dropna_def
  proof (rule map_filter_single)
    show "?m < length ?tbl" using m lt by simp
    show "keep_row (?tbl ! ?m) = Some ?r" by (rule keep)
    show "keep_row (?tbl ! i) = None" if "i < length ?tbl" "i \<noteq> ?m" for i
      using that by (rule others)
  qed
  with checks ne(3) len have "indicator_engine data ?w = Inr [?r]"
    by (simp add: indicator_engine_def Let_def)
  moreover have "rDate ?r = Date (data ! ?m)"
    using m len by (simp add: annotate_nth)
  ultimately have "\<exists>r. indicator_engine data ?w = Inr [r] \<and> rDate r = Date (data ! ?m)"
    by (intro exI conjI)
  with first show ?thesis by (rule conjI)
qed

theorem window_as_long_as_table_witness:
  "length bars_d = 5 \<and> (0::nat) < 5 \<and>
   aSwingHigh (annotate bars_d 5 ! 2) \<noteq> None \<and> aSwingLow (annotate bars_d 5 ! 2) \<noteq> None \<and>
   aSwingHigh (annotate bars_d 5 ! 3) = None \<and> aSwingLow (annotate bars_d 5 ! 3) = None \<and>
   (\<exists>r. indicator_engine bars_d 5 = Inr [r] \<and> rDate r = 2)"
proof -
  have len: "length bars_d = 5" by (simp add: bars_d_def)
  have pos: "(0::nat) < 5" by simp
  have d: "Date (bars_d ! 2) = 2" by (simp add: bars_d_def bar_def)
  note full = window_as_long_as_table [OF len pos]
  from full [THEN conjunct1, rule_format, of 2] len
  have two: "aSwingHigh (annotate bars_d 5 ! 2) \<noteq> None \<and> aSwingLow (annotate bars_d 5 ! 2) \<noteq> None"
    by simp
  from full [THEN conjunct1, rule_format, of 3] len
  have three: "aSwingHigh (annotate bars_d 5 ! 3) = None \<and> aSwingLow (annotate bars_d 5 ! 3) = None"
    by simp
  from full [THEN conjunct2] d
  have "\<exists>r. indicator_engine bars_d 5 = Inr [r] \<and> rDate r = 2"
    by simp
  with len pos two three show ?thesis by simp
qed

section \<open>Parameters out of range\<close>






section \<open>A table of one row\<close>





end
